theory Spec2Isabelle
  imports Complex_Main
begin

section \<open>Coplanar magnetic atoms: the clustering and sign-assignment core\<close>

text \<open>
  A shallow embedding of \<^verbatim>\<open>scripts/magnetism/coplanar_magnetic_atoms.py\<close>.

  Conventions of the embedding.
  \<^item> A Python \<^verbatim>\<open>float\<close> (numpy \<^verbatim>\<open>float64\<close>) is a \<^typ>\<open>real\<close>: rounding is not modelled, and
    the values are finite. The one place where the source leaves the finite numbers, the
    division by the norm in the projector, has its own result type \<open>npfloat\<close>.
  \<^item> A Python \<^verbatim>\<open>int\<close> is an \<^typ>\<open>int\<close>; list positions and plane ids are \<^typ>\<open>nat\<close>.
    \<open>div\<close> and \<open>mod\<close> on \<^typ>\<open>int\<close> round towards minus infinity, as \<^verbatim>\<open>//\<close> and \<^verbatim>\<open>%\<close> do.
  \<^item> A Python \<^verbatim>\<open>str\<close> is a \<^typ>\<open>string\<close> of ASCII characters.
  \<^item> The dictionary \<^verbatim>\<open>planes\<close> is an association list in insertion order, which is the
    order in which \<^verbatim>\<open>planes.items()\<close> iterates.
  \<^item> An exception is a value \<open>Inl e\<close> of a sum type; the script has no exception classes of
    its own, so the errors are the built-in ones that its statements can raise.
\<close>

datatype error = IndexError | KeyError | ZeroDivisionError

subsection \<open>Atom selection (\<^verbatim>\<open>parse_atom_selection\<close>)\<close>

text \<open>\<^verbatim>\<open>str.isspace\<close> on ASCII: tab, line feed, vertical tab, form feed, carriage return,
  the four separators 0x1C..0x1F and the space.\<close>

definition isspace :: "char \<Rightarrow> bool" where
  "isspace c = (of_char c \<in> {9, 10, 11, 12, 13, 28, 29, 30, 31, 32 :: nat})"

text \<open>\<^verbatim>\<open>str.split()\<close> without arguments: maximal runs of non-whitespace characters.
  \<open>cur\<close> is the token being read.\<close>

fun split_from :: "string \<Rightarrow> string \<Rightarrow> string list" where
  "split_from cur [] = (if cur = [] then [] else [cur])"
| "split_from cur (c # cs) =
     (if isspace c then (if cur = [] then split_from [] cs else cur # split_from [] cs)
      else split_from (cur @ [c]) cs)"

definition split :: "string \<Rightarrow> string list" where
  "split s = split_from [] s"

definition is_digit_char :: "char \<Rightarrow> bool" where
  "is_digit_char c = (48 \<le> (of_char c :: nat) \<and> (of_char c :: nat) \<le> 57)"

text \<open>\<^verbatim>\<open>str.isdigit\<close>: a non-empty string of digits.\<close>

definition isdigit :: "string \<Rightarrow> bool" where
  "isdigit s = (s \<noteq> [] \<and> list_all is_digit_char s)"

text \<open>\<^verbatim>\<open>int(x)\<close> on a string of digits (the only strings it is applied to).\<close>

definition int_of_str :: "string \<Rightarrow> int" where
  "int_of_str s = foldl (\<lambda>acc c. 10 * acc + (int (of_char c) - 48)) 0 s"

definition lower_char :: "char \<Rightarrow> char" where
  "lower_char c =
     (if 65 \<le> (of_char c :: nat) \<and> (of_char c :: nat) \<le> 90 then char_of (of_char c + 32 :: nat) else c)"

definition lower :: "string \<Rightarrow> string" where
  "lower s = map lower_char s"

text \<open>numpy's \<^verbatim>\<open>mask[idx] = True\<close> for a list \<open>idx\<close> of integers on an array of length \<open>n\<close>:
  an index \<open>j\<close> is accepted when \<open>-n \<le> j < n\<close>, a negative one counting from the end;
  any other index raises \<^verbatim>\<open>IndexError\<close>.\<close>

fun set_true :: "bool list \<Rightarrow> int list \<Rightarrow> error + bool list" where
  "set_true msk [] = Inr msk"
| "set_true msk (j # js) =
     (let n = int (length msk) in
      if j < - n \<or> n \<le> j then Inl IndexError
      else set_true (msk[nat (if j < 0 then j + n else j) := True]) js)"

definition parse_atom_selection :: "string \<Rightarrow> string list \<Rightarrow> error + bool list" where
  "parse_atom_selection atom_str elems =
     (let natoms = length elems in
      if lower atom_str = ''all'' then Inr (replicate natoms True)
      else
        let parts = split atom_str in
        if list_all isdigit parts then
          (let idx = map (\<lambda>x. int_of_str x - 1) parts
           in set_true (replicate natoms False) idx)
        else
          Inr (map (\<lambda>e. e \<in> set parts) elems))"

subsection \<open>The projector\<close>

type_synonym vec3 = "real \<times> real \<times> real"

text \<open>The lattice is its three row vectors.\<close>

type_synonym lattice = "vec3 \<times> vec3 \<times> vec3"

text \<open>\<^verbatim>\<open>v @ lattice\<close>: the row vector \<open>v\<close> times the matrix.\<close>

fun vec_mat :: "vec3 \<Rightarrow> lattice \<Rightarrow> vec3" where
  "vec_mat (x, y, z) ((a1, a2, a3), (b1, b2, b3), (c1, c2, c3)) =
     (x * a1 + y * b1 + z * c1, x * a2 + y * b2 + z * c2, x * a3 + y * b3 + z * c3)"

fun components :: "vec3 \<Rightarrow> real list" where
  "components (x, y, z) = [x, y, z]"

text \<open>\<^verbatim>\<open>n_cart = n_vec @ lattice if np.all(np.abs(n_vec) <= 1) else n_vec\<close>\<close>

definition n_cart :: "vec3 \<Rightarrow> lattice \<Rightarrow> vec3" where
  "n_cart n_vec lat =
     (if list_all (\<lambda>c. \<bar>c\<bar> \<le> 1) (components n_vec) then vec_mat n_vec lat else n_vec)"

text \<open>The result of a numpy division: numpy does not raise on a zero divisor, it warns and
  returns \<^verbatim>\<open>nan\<close> for \<open>0 / 0\<close> and a signed infinity for \<open>x / 0\<close> with \<open>x \<noteq> 0\<close>.\<close>

datatype npfloat = Finite real | PosInf | NegInf | NaN

definition np_divide :: "real \<Rightarrow> real \<Rightarrow> npfloat" where
  "np_divide x y =
     (if y \<noteq> 0 then Finite (x / y)
      else if x = 0 then NaN else if 0 < x then PosInf else NegInf)"

text \<open>\<^verbatim>\<open>np.linalg.norm\<close> of a vector.\<close>

fun norm3 :: "vec3 \<Rightarrow> real" where
  "norm3 (x, y, z) = sqrt (x * x + y * y + z * z)"

text \<open>\<^verbatim>\<open>n_hat = n_cart / np.linalg.norm(n_cart)\<close>. No statement of the projector raises.\<close>

definition n_hat :: "vec3 \<Rightarrow> lattice \<Rightarrow> error + (npfloat \<times> npfloat \<times> npfloat)" where
  "n_hat n_vec lat =
     (case n_cart n_vec lat of (x, y, z) \<Rightarrow>
        let nrm = norm3 (x, y, z)
        in Inr (np_divide x nrm, np_divide y nrm, np_divide z nrm))"

text \<open>Products and sums with a component of \<open>n_hat\<close>, as IEEE arithmetic gives them:
  \<^verbatim>\<open>nan\<close> propagates, \<open>0 * inf\<close> and \<open>inf - inf\<close> are \<^verbatim>\<open>nan\<close>.\<close>

fun np_multiply :: "real \<Rightarrow> npfloat \<Rightarrow> npfloat" where
  "np_multiply c (Finite v) = Finite (c * v)"
| "np_multiply c NaN = NaN"
| "np_multiply c PosInf = (if c = 0 then NaN else if 0 < c then PosInf else NegInf)"
| "np_multiply c NegInf = (if c = 0 then NaN else if 0 < c then NegInf else PosInf)"

fun np_add :: "npfloat \<Rightarrow> npfloat \<Rightarrow> npfloat" where
  "np_add (Finite a) (Finite b) = Finite (a + b)"
| "np_add NaN _ = NaN"
| "np_add _ NaN = NaN"
| "np_add PosInf NegInf = NaN"
| "np_add NegInf PosInf = NaN"
| "np_add PosInf _ = PosInf"
| "np_add _ PosInf = PosInf"
| "np_add NegInf _ = NegInf"
| "np_add _ NegInf = NegInf"

text \<open>\<^verbatim>\<open>cart = frac @ lattice; proj = cart @ n_hat\<close>: one projection per atom.\<close>

fun dot_n_hat :: "vec3 \<Rightarrow> npfloat \<times> npfloat \<times> npfloat \<Rightarrow> npfloat" where
  "dot_n_hat (c1, c2, c3) (n1, n2, n3) =
     np_add (np_add (np_multiply c1 n1) (np_multiply c2 n2)) (np_multiply c3 n3)"

definition projections :: "vec3 \<Rightarrow> lattice \<Rightarrow> vec3 list \<Rightarrow> error + npfloat list" where
  "projections n_vec lat fracs =
     (case n_hat n_vec lat of
        Inl e \<Rightarrow> Inl e
      | Inr n \<Rightarrow> Inr (map (\<lambda>f. dot_n_hat (vec_mat f lat) n) fracs))"

subsection \<open>The plane clusterer\<close>

text \<open>A plane is \<^verbatim>\<open>[ref_proj, [atom_idx]]\<close>; \<^verbatim>\<open>planes\<close> maps a plane id to a plane.\<close>

type_synonym plane = "real \<times> nat list"
type_synonym planes = "(nat \<times> plane) list"

definition ref_of :: "nat \<times> plane \<Rightarrow> real" where
  "ref_of kv = fst (snd kv)"

definition members :: "nat \<times> plane \<Rightarrow> nat list" where
  "members kv = snd (snd kv)"

text \<open>\<^verbatim>\<open>next((k for k,(ref,_) in planes.items() if abs(p-ref)<tol), None)\<close>\<close>

definition next_pid :: "real \<Rightarrow> real \<Rightarrow> planes \<Rightarrow> nat option" where
  "next_pid tol p planes =
     map_option fst (find (\<lambda>(k, (ref, _)). \<bar>p - ref\<bar> < tol) planes)"

text \<open>\<^verbatim>\<open>planes[pid] = v\<close>: an existing key keeps its position, a new key goes last.\<close>

fun dict_set :: "nat \<Rightarrow> plane \<Rightarrow> planes \<Rightarrow> planes" where
  "dict_set pid v [] = [(pid, v)]"
| "dict_set pid v ((k, w) # rest) =
     (if k = pid then (k, v) # rest else (k, w) # dict_set pid v rest)"

text \<open>\<^verbatim>\<open>planes[pid][1].append(i)\<close>: a missing key raises \<^verbatim>\<open>KeyError\<close>.\<close>

fun append_member :: "nat \<Rightarrow> nat \<Rightarrow> planes \<Rightarrow> error + planes" where
  "append_member pid i [] = Inl KeyError"
| "append_member pid i ((k, (ref, idx_list)) # rest) =
     (if k = pid then Inr ((k, (ref, idx_list @ [i])) # rest)
      else case append_member pid i rest of
             Inl e \<Rightarrow> Inl e
           | Inr rest' \<Rightarrow> Inr ((k, (ref, idx_list)) # rest'))"

text \<open>The body of the clustering loop for a selected atom \<open>i\<close> with projection \<open>p\<close>.\<close>

definition cluster_step :: "real \<Rightarrow> nat \<Rightarrow> real \<Rightarrow> planes \<Rightarrow> error + planes" where
  "cluster_step tol i p planes =
     (case next_pid tol p planes of
        None \<Rightarrow> append_member (length planes) i (dict_set (length planes) (p, []) planes)
      | Some pid \<Rightarrow> append_member pid i planes)"

text \<open>\<^verbatim>\<open>for i, p in enumerate(proj): if not mask[i]: continue; ...\<close>
  Reading \<^verbatim>\<open>mask[i]\<close> beyond the mask raises \<^verbatim>\<open>IndexError\<close>.\<close>

fun cluster_loop :: "real \<Rightarrow> bool list \<Rightarrow> (nat \<times> real) list \<Rightarrow> planes \<Rightarrow> error + planes" where
  "cluster_loop tol msk [] planes = Inr planes"
| "cluster_loop tol msk ((i, p) # rest) planes =
     (if length msk \<le> i then Inl IndexError
      else if \<not> msk ! i then cluster_loop tol msk rest planes
      else case cluster_step tol i p planes of
             Inl e \<Rightarrow> Inl e
           | Inr planes' \<Rightarrow> cluster_loop tol msk rest planes')"

definition cluster :: "real \<Rightarrow> bool list \<Rightarrow> real list \<Rightarrow> error + planes" where
  "cluster tol msk proj = cluster_loop tol msk (enumerate 0 proj) []"

subsection \<open>Ordering the planes and assigning the signs\<close>

text \<open>\<^verbatim>\<open>sorted(planes.items(), key=lambda kv: kv[1][0])\<close>: Python's \<^verbatim>\<open>sorted\<close> is a stable
  ascending sort by the key, and so is \<^const>\<open>sort_key\<close>.\<close>

definition ordered_of :: "planes \<Rightarrow> planes" where
  "ordered_of planes = sort_key ref_of planes"

text \<open>\<^verbatim>\<open>+1 if (plane_id//L)%2 == 0 else -1\<close>, for \<open>L \<noteq> 0\<close>.\<close>

definition sign_of :: "nat \<Rightarrow> int \<Rightarrow> int" where
  "sign_of plane_id L = (if (int plane_id div L) mod 2 = 0 then 1 else - 1)"

text \<open>The outputs built by the sign loop: the moment of every atom, and the rows of the
  table as (1-based atom index, plane rank, sign).\<close>

record outputs =
  magmom_values :: "real list"
  table_lines :: "(nat \<times> nat \<times> int) list"

text \<open>\<^verbatim>\<open>for idx in idx_list: magmom_values[idx] = sign * M; table_lines.append(...)\<close>\<close>

fun assign_atoms :: "int \<Rightarrow> real \<Rightarrow> nat \<Rightarrow> nat list \<Rightarrow> outputs \<Rightarrow> error + outputs" where
  "assign_atoms sign M plane_id [] out = Inr out"
| "assign_atoms sign M plane_id (idx # rest) out =
     (if length (magmom_values out) \<le> idx then Inl IndexError
      else assign_atoms sign M plane_id rest
             (out\<lparr>magmom_values := (magmom_values out)[idx := of_int sign * M],
                  table_lines := table_lines out @ [(idx + 1, plane_id, sign)]\<rparr>))"

text \<open>\<^verbatim>\<open>for plane_id, (_, idx_list) in enumerate(a[1] for a in ordered): ...\<close>
  The division by \<open>L = 0\<close> raises \<^verbatim>\<open>ZeroDivisionError\<close>.\<close>

fun assign_planes :: "int \<Rightarrow> real \<Rightarrow> (nat \<times> plane) list \<Rightarrow> outputs \<Rightarrow> error + outputs" where
  "assign_planes L M [] out = Inr out"
| "assign_planes L M ((plane_id, (_, idx_list)) # rest) out =
     (if L = 0 then Inl ZeroDivisionError
      else case assign_atoms (sign_of plane_id L) M plane_id idx_list out of
             Inl e \<Rightarrow> Inl e
           | Inr out' \<Rightarrow> assign_planes L M rest out')"

text \<open>The core of \<^verbatim>\<open>main\<close>, from the clustering loop to the end of the sign loop, on the
  projections \<open>proj\<close>, the selection \<open>msk\<close>, the tolerance, the block size \<open>L\<close> and the
  magnitude \<open>M\<close>. It returns the ordered planes and the outputs.\<close>

definition main_core ::
  "nat \<Rightarrow> real list \<Rightarrow> bool list \<Rightarrow> real \<Rightarrow> int \<Rightarrow> real \<Rightarrow> error + (planes \<times> outputs)" where
  "main_core natoms proj msk tol L M =
     (case cluster tol msk proj of
        Inl e \<Rightarrow> Inl e
      | Inr planes \<Rightarrow>
          let ordered = ordered_of planes in
          case assign_planes L M (enumerate 0 (map snd ordered))
                 \<lparr>magmom_values = replicate natoms 0, table_lines = []\<rparr> of
            Inl e \<Rightarrow> Inl e
          | Inr out \<Rightarrow> Inr (ordered, out))"

subsection \<open>Auxiliary notions for the proofs\<close>

text \<open>The keys of \<^verbatim>\<open>planes\<close> are \<open>0, 1, 2, ...\<close> in insertion order: a new plane takes
  \<^verbatim>\<open>len(planes)\<close> as its id.\<close>

definition ids_ok :: "planes \<Rightarrow> bool" where
  "ids_ok planes = (map fst planes = [0..<length planes])"

section \<open>Properties of the clustering loop\<close>

lemma cluster_loop_append:
  "cluster_loop tol msk (xs @ ys) S =
     (case cluster_loop tol msk xs S of Inl e \<Rightarrow> Inl e | Inr S' \<Rightarrow> cluster_loop tol msk ys S')"
  by (induction xs arbitrary: S) (auto split: sum.splits)

lemma dict_set_fresh:
  "pid \<notin> fst ` set planes \<Longrightarrow> dict_set pid v planes = planes @ [(pid, v)]"
  by (induction planes) auto

lemma append_member_last:
  "pid \<notin> fst ` set planes \<Longrightarrow>
   append_member pid i (planes @ [(pid, (ref, idx_list))]) = Inr (planes @ [(pid, (ref, idx_list @ [i]))])"
  by (induction planes) auto

lemma append_member_nth:
  "distinct (map fst planes) \<Longrightarrow> j < length planes \<Longrightarrow>
   append_member (fst (planes ! j)) i planes =
     Inr (planes[j := (fst (planes ! j), ref_of (planes ! j), members (planes ! j) @ [i])])"
proof (induction planes arbitrary: j)
  case Nil
  then show ?case by simp
next
  case (Cons kv planes)
  obtain k r m where kv: "kv = (k, r, m)" by (cases kv) auto
  show ?case
  proof (cases j)
    case 0
    then show ?thesis by (simp add: kv ref_of_def members_def)
  next
    case (Suc j')
    with Cons.prems have j': "j' < length planes" and d: "distinct (map fst planes)"
      and nk: "fst (planes ! j') \<noteq> k"
      by (auto simp: kv)
    from Cons.IH[OF d j'] nk show ?thesis
      by (simp add: kv Suc)
  qed
qed

lemma ids_ok_distinct: "ids_ok planes \<Longrightarrow> distinct (map fst planes)"
  by (simp add: ids_ok_def)

lemma ids_ok_fresh: "ids_ok planes \<Longrightarrow> length planes \<notin> fst ` set planes"
proof -
  assume "ids_ok planes"
  then have "set (map fst planes) = {0..<length planes}" by (simp add: ids_ok_def)
  then show ?thesis by auto
qed

lemma ids_ok_nth: "ids_ok planes \<Longrightarrow> j < length planes \<Longrightarrow> fst (planes ! j) = j"
proof -
  assume a: "ids_ok planes" "j < length planes"
  then have "map fst planes ! j = [0..<length planes] ! j" by (simp add: ids_ok_def)
  with a(2) show ?thesis by simp
qed

lemma next_pid_find:
  "next_pid tol p planes = map_option fst (find (\<lambda>kv. \<bar>p - ref_of kv\<bar> < tol) planes)"
proof -
  have "(\<lambda>(k, (ref, _)). \<bar>p - ref\<bar> < tol) = (\<lambda>kv :: nat \<times> plane. \<bar>p - ref_of kv\<bar> < tol)"
    by (auto simp: ref_of_def fun_eq_iff)
  then show ?thesis by (simp add: next_pid_def)
qed

lemma next_pid_None:
  "next_pid tol p planes = None \<longleftrightarrow> (\<forall>j<length planes. \<not> \<bar>p - ref_of (planes ! j)\<bar> < tol)"
proof -
  have "next_pid tol p planes = None \<longleftrightarrow> (\<forall>kv\<in>set planes. \<not> \<bar>p - ref_of kv\<bar> < tol)"
    unfolding next_pid_find by (simp only: map_option_is_None find_None_iff) blast
  also have "\<dots> \<longleftrightarrow> (\<forall>j<length planes. \<not> \<bar>p - ref_of (planes ! j)\<bar> < tol)"
    by (simp only: all_set_conv_all_nth)
  finally show ?thesis .
qed

lemma next_pid_Some:
  "next_pid tol p planes = Some k \<longleftrightarrow>
     (\<exists>j<length planes. \<bar>p - ref_of (planes ! j)\<bar> < tol \<and> k = fst (planes ! j) \<and>
        (\<forall>j'<j. \<not> \<bar>p - ref_of (planes ! j')\<bar> < tol))"
proof -
  have "next_pid tol p planes = Some k \<longleftrightarrow>
          (\<exists>kv. find (\<lambda>kv. \<bar>p - ref_of kv\<bar> < tol) planes = Some kv \<and> fst kv = k)"
    unfolding next_pid_find by (simp only: map_option_eq_Some)
  also have "\<dots> \<longleftrightarrow>
     (\<exists>j<length planes. \<bar>p - ref_of (planes ! j)\<bar> < tol \<and> k = fst (planes ! j) \<and>
        (\<forall>j'<j. \<not> \<bar>p - ref_of (planes ! j')\<bar> < tol))"
    by (simp only: find_Some_iff) blast
  finally show ?thesis .
qed

lemma cluster_step_new:
  assumes "ids_ok planes" and "\<forall>j<length planes. \<not> \<bar>p - ref_of (planes ! j)\<bar> < tol"
  shows "cluster_step tol i p planes = Inr (planes @ [(length planes, p, [i])])"
proof -
  from assms(2) have "next_pid tol p planes = None" by (simp add: next_pid_None)
  with ids_ok_fresh[OF assms(1)] show ?thesis
    using append_member_last[of "length planes" planes i p "[]"]
    by (simp add: cluster_step_def dict_set_fresh)
qed

lemma cluster_step_join:
  assumes "ids_ok planes" and "j < length planes" and "\<bar>p - ref_of (planes ! j)\<bar> < tol"
    and "\<forall>j'<j. \<not> \<bar>p - ref_of (planes ! j')\<bar> < tol"
  shows "cluster_step tol i p planes =
           Inr (planes[j := (j, ref_of (planes ! j), members (planes ! j) @ [i])])"
proof -
  from assms have "next_pid tol p planes = Some (fst (planes ! j))"
    unfolding next_pid_Some by blast
  then show ?thesis
    using append_member_nth[OF ids_ok_distinct[OF assms(1)] assms(2), of i]
    by (simp add: cluster_step_def ids_ok_nth[OF assms(1) assms(2)])
qed

lemma cluster_step_ok:
  assumes "ids_ok planes"
  shows "\<exists>planes'. cluster_step tol i p planes = Inr planes' \<and> ids_ok planes'"
proof (cases "\<exists>j<length planes. \<bar>p - ref_of (planes ! j)\<bar> < tol")
  case False
  then have "cluster_step tol i p planes = Inr (planes @ [(length planes, p, [i])])"
    using cluster_step_new[OF assms] by blast
  moreover have "ids_ok (planes @ [(length planes, p, [i])])"
    using assms by (simp add: ids_ok_def)
  ultimately show ?thesis by blast
next
  case True
  define j where "j = (LEAST j. j < length planes \<and> \<bar>p - ref_of (planes ! j)\<bar> < tol)"
  from True have 1: "j < length planes \<and> \<bar>p - ref_of (planes ! j)\<bar> < tol"
    unfolding j_def by - (rule LeastI_ex, blast)
  have 2: "\<forall>j'<j. \<not> \<bar>p - ref_of (planes ! j')\<bar> < tol"
    using not_less_Least[of _ "\<lambda>j. j < length planes \<and> \<bar>p - ref_of (planes ! j)\<bar> < tol"] 1
    unfolding j_def by (metis (no_types, lifting) less_trans)
  have "cluster_step tol i p planes =
          Inr (planes[j := (j, ref_of (planes ! j), members (planes ! j) @ [i])])"
    using cluster_step_join[OF assms _ _ 2] 1 by blast
  moreover have "ids_ok (planes[j := (j, ref_of (planes ! j), members (planes ! j) @ [i])])"
    using assms 1 ids_ok_nth[OF assms, of j] by (simp add: ids_ok_def map_update list_update_same_conv)
  ultimately show ?thesis by blast
qed

lemma cluster_snoc:
  assumes "n < length proj"
  shows "cluster tol msk (take (Suc n) proj) =
           (case cluster tol msk (take n proj) of
              Inl e \<Rightarrow> Inl e
            | Inr planes \<Rightarrow>
                if length msk \<le> n then Inl IndexError
                else if \<not> msk ! n then Inr planes
                else cluster_step tol n (proj ! n) planes)"
proof -
  have "enumerate 0 (take (Suc n) proj) = enumerate 0 (take n proj) @ [(n, proj ! n)]"
    using assms by (simp add: take_Suc_conv_app_nth enumerate_append_eq min_def)
  then show ?thesis
    by (simp add: cluster_def cluster_loop_append split: sum.splits)
qed

lemma cluster_induct:
  assumes len: "length proj \<le> length msk"
    and n: "n \<le> length proj"
    and base: "Q 0 []"
    and skip: "\<And>n S. n < length proj \<Longrightarrow> \<not> msk ! n \<Longrightarrow> ids_ok S \<Longrightarrow> Q n S \<Longrightarrow> Q (Suc n) S"
    and new: "\<And>n S. n < length proj \<Longrightarrow> msk ! n \<Longrightarrow> ids_ok S \<Longrightarrow> Q n S \<Longrightarrow>
                \<forall>j<length S. \<not> \<bar>proj ! n - ref_of (S ! j)\<bar> < tol \<Longrightarrow>
                Q (Suc n) (S @ [(length S, proj ! n, [n])])"
    and join: "\<And>n S j. n < length proj \<Longrightarrow> msk ! n \<Longrightarrow> ids_ok S \<Longrightarrow> Q n S \<Longrightarrow>
                j < length S \<Longrightarrow> \<bar>proj ! n - ref_of (S ! j)\<bar> < tol \<Longrightarrow>
                \<forall>j'<j. \<not> \<bar>proj ! n - ref_of (S ! j')\<bar> < tol \<Longrightarrow>
                Q (Suc n) (S[j := (j, ref_of (S ! j), members (S ! j) @ [n])])"
  shows "\<exists>S. cluster tol msk (take n proj) = Inr S \<and> ids_ok S \<and> Q n S"
  using n
proof (induction n)
  case 0
  show ?case using base by (simp add: cluster_def ids_ok_def)
next
  case (Suc n)
  then have nlt: "n < length proj" by simp
  with Suc obtain S where S: "cluster tol msk (take n proj) = Inr S" "ids_ok S" "Q n S"
    by auto
  from nlt len have nm: "\<not> length msk \<le> n" by simp
  show ?case
  proof (cases "msk ! n")
    case False
    then have "cluster tol msk (take (Suc n) proj) = Inr S"
      using nm S(1) by (simp add: cluster_snoc[OF nlt])
    with skip[OF nlt False S(2,3)] S(2) show ?thesis by blast
  next
    case True
    then have eq: "cluster tol msk (take (Suc n) proj) = cluster_step tol n (proj ! n) S"
      using nm S(1) by (simp add: cluster_snoc[OF nlt])
    from cluster_step_ok[OF S(2), of tol n "proj ! n"] obtain S' where
      S': "cluster_step tol n (proj ! n) S = Inr S'" "ids_ok S'" by blast
    show ?thesis
    proof (cases "\<exists>j<length S. \<bar>proj ! n - ref_of (S ! j)\<bar> < tol")
      case False
      then have nomatch: "\<forall>j<length S. \<not> \<bar>proj ! n - ref_of (S ! j)\<bar> < tol" by blast
      from cluster_step_new[OF S(2) nomatch, of n] S'
      have "S' = S @ [(length S, proj ! n, [n])]" by simp
      with new[OF nlt True S(2,3) nomatch] S' eq show ?thesis by auto
    next
      case ex: True
      define j where "j = (LEAST j. j < length S \<and> \<bar>proj ! n - ref_of (S ! j)\<bar> < tol)"
      from ex have 1: "j < length S \<and> \<bar>proj ! n - ref_of (S ! j)\<bar> < tol"
        unfolding j_def by - (rule LeastI_ex, blast)
      have 2: "\<forall>j'<j. \<not> \<bar>proj ! n - ref_of (S ! j')\<bar> < tol"
        using not_less_Least[of _ "\<lambda>j. j < length S \<and> \<bar>proj ! n - ref_of (S ! j)\<bar> < tol"] 1
        unfolding j_def by (metis (no_types, lifting) less_trans)
      from cluster_step_join[OF S(2) _ _ 2, where i = n] 1 S'
      have "S' = S[j := (j, ref_of (S ! j), members (S ! j) @ [n])]" by simp
      with join[OF nlt True S(2,3) _ _ 2] 1 S' eq show ?thesis by auto
    qed
  qed
qed

lemma cluster_prefix_ok:
  assumes "length proj \<le> length msk" and "n \<le> length proj"
  shows "\<exists>S. cluster tol msk (take n proj) = Inr S \<and> ids_ok S"
  using cluster_induct[OF assms, of "\<lambda>_ _. True" tol] by simp

text \<open>
  Claim C1. The clustering is first-fit, in one pass over the selected atoms in their
  original order. Whatever the pass has built from the first \<open>n\<close> atoms, the atom \<open>n\<close> is
  skipped when it is not selected; otherwise it is appended to the members of the first
  plane, in creation order, whose reference value \<open>ref\<close> has \<open>\<bar>p - ref\<bar> < tol\<close> (strictly),
  and that plane keeps its id and its reference value; when no plane matches, a new plane
  with the next id, the reference value \<open>p\<close> and the single member \<open>n\<close> is added last. The
  pass starts from no planes, and the plane ids are the creation ranks.
\<close>

theorem cluster_first_fit:
  assumes "length proj \<le> length msk" and "n < length proj"
  shows "cluster tol msk [] = Inr [] \<and>
    (\<exists>planes.
      cluster tol msk (take n proj) = Inr planes \<and>
      map fst planes = [0..<length planes] \<and>
      cluster tol msk (take (Suc n) proj) = Inr
        (if \<not> msk ! n then planes
         else if \<exists>j<length planes. \<bar>proj ! n - ref_of (planes ! j)\<bar> < tol
         then (let j = (LEAST j. j < length planes \<and> \<bar>proj ! n - ref_of (planes ! j)\<bar> < tol)
               in planes[j := (j, ref_of (planes ! j), members (planes ! j) @ [n])])
         else planes @ [(length planes, proj ! n, [n])]))"
proof -
  from assms cluster_prefix_ok[of proj msk n tol] obtain S where
    S: "cluster tol msk (take n proj) = Inr S" "ids_ok S" by auto
  from assms have nm: "\<not> length msk \<le> n" by simp
  let ?P = "\<lambda>j. j < length S \<and> \<bar>proj ! n - ref_of (S ! j)\<bar> < tol"
  have step: "cluster tol msk (take (Suc n) proj) =
                (if \<not> msk ! n then Inr S else cluster_step tol n (proj ! n) S)"
    using nm S(1) by (simp add: cluster_snoc[OF assms(2)])
  have "cluster tol msk (take (Suc n) proj) = Inr
        (if \<not> msk ! n then S
         else if \<exists>j<length S. \<bar>proj ! n - ref_of (S ! j)\<bar> < tol
         then (let j = (LEAST j. ?P j)
               in S[j := (j, ref_of (S ! j), members (S ! j) @ [n])])
         else S @ [(length S, proj ! n, [n])])"
  proof (cases "msk ! n")
    case False
    then show ?thesis by (simp add: step)
  next
    case True
    show ?thesis
    proof (cases "\<exists>j<length S. \<bar>proj ! n - ref_of (S ! j)\<bar> < tol")
      case False
      then have "\<forall>j<length S. \<not> \<bar>proj ! n - ref_of (S ! j)\<bar> < tol" by blast
      from cluster_step_new[OF S(2) this, of n] True False show ?thesis
        unfolding step by auto
    next
      case ex: True
      define j where "j = (LEAST j. ?P j)"
      from ex have 1: "?P j"
        unfolding j_def by - (rule LeastI_ex, blast)
      have 2: "\<forall>j'<j. \<not> \<bar>proj ! n - ref_of (S ! j')\<bar> < tol"
        using not_less_Least[of _ ?P] 1
        unfolding j_def by (metis (no_types, lifting) less_trans)
      from cluster_step_join[OF S(2) _ _ 2, where i = n] 1
      have "cluster_step tol n (proj ! n) S =
              Inr (S[j := (j, ref_of (S ! j), members (S ! j) @ [n])])" by simp
      with True ex show ?thesis
        unfolding step j_def by (simp add: Let_def)
    qed
  qed
  moreover have "map fst S = [0..<length S]" using S(2) by (simp add: ids_ok_def)
  moreover have "cluster tol msk [] = Inr []" by (simp add: cluster_def)
  ultimately show ?thesis using S(1) by blast
qed

theorem cluster_first_fit_witness:
  "length [0, 1 / 100, 5 :: real] \<le> length [True, True, True] \<and>
   (1 :: nat) < length [0, 1 / 100, 5 :: real] \<and>
   cluster (1 / 50) [True, True, True] (take (Suc 1) [0, 1 / 100, 5]) = Inr [(0, 0, [0, 1])]"
proof -
  have pre: "cluster (1 / 50) [True, True, True] (take 1 [0, 1 / 100, 5]) = Inr [(0, 0, [0])]"
    by (simp add: cluster_def cluster_step_def next_pid_def)
  have least: "(LEAST j. j < length [(0 :: nat, 0 :: real, [0 :: nat])] \<and>
                  \<bar>[0, 1 / 100, 5] ! 1 - ref_of ([(0, 0, [0])] ! j)\<bar> < 1 / 50) = 0"
    by (rule Least_equality) (simp_all add: ref_of_def)
  from cluster_first_fit[of "[0, 1 / 100, 5]" "[True, True, True]" 1 "1 / 50"]
  obtain planes where
    1: "cluster (1 / 50) [True, True, True] (take 1 [0, 1 / 100, 5]) = Inr planes" and
    2: "cluster (1 / 50) [True, True, True] (take (Suc 1) [0, 1 / 100, 5]) = Inr
        (if \<not> [True, True, True] ! 1 then planes
         else if \<exists>j<length planes. \<bar>[0, 1 / 100, 5] ! 1 - ref_of (planes ! j)\<bar> < 1 / 50
         then (let j = (LEAST j. j < length planes \<and> \<bar>[0, 1 / 100, 5] ! 1 - ref_of (planes ! j)\<bar> < 1 / 50)
               in planes[j := (j, ref_of (planes ! j), members (planes ! j) @ [1])])
         else planes @ [(length planes, [0, 1 / 100, 5] ! 1, [1])])"
    by auto
  from 1 pre have p: "planes = [(0, 0, [0])]" by simp
  have ex: "\<exists>j<length [(0 :: nat, 0 :: real, [0 :: nat])]. \<bar>[0, 1 / 100, 5] ! 1 - ref_of ([(0, 0, [0])] ! j)\<bar> < 1 / 50"
    by (simp add: ref_of_def)
  show ?thesis
    using 2 unfolding p least using ex by (simp add: ref_of_def members_def)
qed

lemma concat_members_snoc:
  "concat (map members (S @ [(k, p, [n])])) = concat (map members S) @ [n]"
  by (simp add: members_def)

lemma concat_members_update:
  assumes "j < length S"
  shows "\<exists>xs ys. concat (map members S) = xs @ members (S ! j) @ ys \<and>
           concat (map members (S[j := (k, r, members (S ! j) @ [n])])) =
             xs @ members (S ! j) @ [n] @ ys"
proof -
  let ?xs = "concat (map members (take j S))" and ?ys = "concat (map members (drop (Suc j) S))"
  have "S = take j S @ S ! j # drop (Suc j) S"
    using assms by (rule id_take_nth_drop)
  then have "concat (map members S) = concat (map members (take j S @ S ! j # drop (Suc j) S))"
    by simp
  then have 1: "concat (map members S) = ?xs @ members (S ! j) @ ?ys" by simp
  have 2: "concat (map members (S[j := (k, r, members (S ! j) @ [n])])) =
             ?xs @ members (S ! j) @ [n] @ ?ys"
    using assms by (simp add: upd_conv_take_nth_drop members_def)
  from 1 2 show ?thesis by blast
qed

lemma set_concat_members_update:
  assumes "j < length S"
  shows "set (concat (map members (S[j := (k, r, members (S ! j) @ [n])]))) =
           insert n (set (concat (map members S)))"
proof -
  from concat_members_update[OF assms, of k r n] obtain xs ys where
    "concat (map members S) = xs @ members (S ! j) @ ys"
    "concat (map members (S[j := (k, r, members (S ! j) @ [n])])) =
       xs @ members (S ! j) @ [n] @ ys"
    by blast
  then have "set (concat (map members (S[j := (k, r, members (S ! j) @ [n])]))) =
               set (xs @ members (S ! j) @ [n] @ ys)"
    and "set (concat (map members S)) = set (xs @ members (S ! j) @ ys)"
    by (simp_all only:)
  then show ?thesis by (simp only: set_append) auto
qed

lemma distinct_concat_members_update:
  assumes "j < length S" and "distinct (concat (map members S))"
    and "n \<notin> set (concat (map members S))"
  shows "distinct (concat (map members (S[j := (k, r, members (S ! j) @ [n])])))"
proof -
  from concat_members_update[OF assms(1), of k r n] obtain xs ys where
    1: "concat (map members S) = xs @ members (S ! j) @ ys" and
    2: "concat (map members (S[j := (k, r, members (S ! j) @ [n])])) =
       xs @ members (S ! j) @ [n] @ ys"
    by blast
  from assms(2,3) have "distinct (xs @ members (S ! j) @ ys)" "n \<notin> set (xs @ members (S ! j) @ ys)"
    unfolding 1 by simp_all
  then have "distinct (xs @ members (S ! j) @ [n] @ ys)" by auto
  then show ?thesis unfolding 2 .
qed

lemma cluster_members:
  assumes "length proj \<le> length msk" and "n \<le> length proj"
  shows "\<exists>S. cluster tol msk (take n proj) = Inr S \<and> ids_ok S \<and>
           (distinct (concat (map members S)) \<and>
            set (concat (map members S)) = {i. i < n \<and> msk ! i} \<and>
            (\<forall>kv\<in>set S. members kv \<noteq> []))"
proof (rule cluster_induct[OF assms], goal_cases)
  case 1
  show ?case by simp
next
  case (2 n S)
  then show ?case by (auto simp: less_Suc_eq)
next
  case (3 n S)
  then show ?case
    by (auto simp: less_Suc_eq members_def)
next
  case (4 n S j)
  have "\<forall>kv\<in>set (S[j := (j, ref_of (S ! j), members (S ! j) @ [n])]). members kv \<noteq> []"
  proof
    fix kv assume "kv \<in> set (S[j := (j, ref_of (S ! j), members (S ! j) @ [n])])"
    then have "kv = (j, ref_of (S ! j), members (S ! j) @ [n]) \<or> kv \<in> set S"
      using set_update_subset_insert[of S j] by auto
    with 4 show "members kv \<noteq> []" by (auto simp: members_def)
  qed
  moreover have "n \<notin> set (concat (map members S))" using 4 by simp
  ultimately show ?case
    using 4 set_concat_members_update[OF 4(5), of j "ref_of (S ! j)" n]
      distinct_concat_members_update[OF 4(5), of n j "ref_of (S ! j)"]
    by (auto simp: less_Suc_eq)
qed

text \<open>
  Claim C3. On a valid input (one mask entry per atom) the clusterer returns planes, and
  their member lists partition the selected atoms: the concatenation of all member lists
  has no repetition and holds exactly the indices inside the mask, so a selected atom is
  in exactly one plane, once, and an unselected atom is in none. No plane is empty, and a
  mask that selects no atom yields no plane, without an error.
\<close>

theorem cluster_partition:
  assumes "length msk = length proj"
  shows "\<exists>planes. cluster tol msk proj = Inr planes \<and>
           distinct (concat (map members planes)) \<and>
           set (concat (map members planes)) = {i. i < length proj \<and> msk ! i} \<and>
           (\<forall>kv\<in>set planes. members kv \<noteq> []) \<and>
           ((\<forall>i<length proj. \<not> msk ! i) \<longrightarrow> planes = [])"
proof -
  from cluster_members[of proj msk "length proj" tol] assms obtain S where
    S: "cluster tol msk proj = Inr S" "distinct (concat (map members S))"
       "set (concat (map members S)) = {i. i < length proj \<and> msk ! i}"
       "\<forall>kv\<in>set S. members kv \<noteq> []"
    by auto
  have "S = []" if "\<forall>i<length proj. \<not> msk ! i"
  proof (cases S)
    case Nil
    then show ?thesis .
  next
    case (Cons kv S')
    with S(4) obtain i where "i \<in> set (members kv)" by (cases "members kv") auto
    with Cons have "i \<in> set (concat (map members S))" by simp
    with S(3) that show ?thesis by auto
  qed
  with S show ?thesis by blast
qed

theorem cluster_partition_witness:
  "length [True, False, True, False] = length [0, 0, 5, 5 :: real] \<and>
   cluster (1 / 50) [True, False, True, False] [0, 0, 5, 5] = Inr [(0, 0, [0]), (1, 5, [2])] \<and>
   length [False, False] = length [0, 5 :: real] \<and>
   \<not> [False, False] ! 0 \<and> \<not> [False, False] ! 1 \<and>
   cluster (1 / 50) [False, False] [0, 5] = Inr []"
proof -
  from cluster_partition[of "[False, False]" "[0, 5]" "1 / 50"]
  obtain planes where
    1: "cluster (1 / 50) [False, False] [0, 5] = Inr planes" and
    2: "(\<forall>i<length [0, 5 :: real]. \<not> [False, False] ! i) \<longrightarrow> planes = []"
    by auto
  have 3: "\<forall>i<length [0, 5 :: real]. \<not> [False, False] ! i"
    by (simp add: less_Suc_eq all_conj_distrib)
  from cluster_partition[of "[True, False, True, False]" "[0, 0, 5, 5]" "1 / 50"]
  obtain planes' where
    4: "cluster (1 / 50) [True, False, True, False] [0, 0, 5, 5] = Inr planes'"
    by auto
  have 5: "cluster (1 / 50) [True, False, True, False] [0, 0, 5, 5] = Inr [(0, 0, [0]), (1, 5, [2])]"
    by (simp add: cluster_def cluster_step_def next_pid_def)
  from 1 2 3 5 show ?thesis by simp
qed

lemma sorted_wrt_filter_nth:
  assumes "sorted_wrt R (filter P xs)" and "r < s" and "s < length xs"
    and "P (xs ! r)" and "P (xs ! s)"
  shows "R (xs ! r) (xs ! s)"
proof -
  from assms have r: "r < length xs" by simp
  have xs: "xs = take r xs @ xs ! r # drop (Suc r) xs"
    using r by (rule id_take_nth_drop)
  have "filter P xs = filter P (take r xs @ xs ! r # drop (Suc r) xs)"
    using xs by simp
  then have "filter P xs = filter P (take r xs) @ xs ! r # filter P (drop (Suc r) xs)"
    using assms(4) by simp
  with assms(1) have "sorted_wrt R (filter P (take r xs) @ xs ! r # filter P (drop (Suc r) xs))"
    by simp
  then have all: "\<forall>y\<in>set (filter P (drop (Suc r) xs)). R (xs ! r) y"
    by (simp add: sorted_wrt_append)
  have "xs ! s = drop (Suc r) xs ! (s - Suc r)"
    using assms(2,3) by simp
  moreover have "s - Suc r < length (drop (Suc r) xs)"
    using assms(2,3) by simp
  ultimately have "xs ! s \<in> set (drop (Suc r) xs)"
    by (metis nth_mem)
  with assms(5) all show ?thesis by simp
qed

lemma ids_ok_sorted: "ids_ok planes \<Longrightarrow> sorted_wrt (\<lambda>a b. fst a < fst b) planes"
proof -
  assume "ids_ok planes"
  then have "sorted_wrt (<) (map fst planes)" by (simp add: ids_ok_def)
  then show ?thesis by (simp add: sorted_wrt_map)
qed

lemma ordered_of_stable:
  assumes "ids_ok planes" and "r < s" and "s < length (ordered_of planes)"
  shows "ref_of (ordered_of planes ! r) \<le> ref_of (ordered_of planes ! s) \<and>
         (ref_of (ordered_of planes ! r) = ref_of (ordered_of planes ! s) \<longrightarrow>
            fst (ordered_of planes ! r) < fst (ordered_of planes ! s))"
proof -
  let ?o = "ordered_of planes"
  have "sorted (map ref_of ?o)" by (simp add: ordered_of_def)
  then have le: "ref_of (?o ! r) \<le> ref_of (?o ! s)"
    using assms(2,3) by (simp add: sorted_map sorted_wrt_iff_nth_less)
  have "fst (?o ! r) < fst (?o ! s)" if eq: "ref_of (?o ! r) = ref_of (?o ! s)"
  proof -
    let ?P = "\<lambda>y. ref_of y = ref_of (?o ! s)"
    have "filter ?P ?o = filter ?P planes"
      unfolding ordered_of_def by (rule sort_key_stable)
    moreover have "sorted_wrt (\<lambda>a b. fst a < fst b) (filter ?P planes)"
      using ids_ok_sorted[OF assms(1)] by (rule sorted_wrt_filter)
    ultimately have "sorted_wrt (\<lambda>a b. fst a < fst b) (filter ?P ?o)" by simp
    from sorted_wrt_filter_nth[OF this assms(2,3)] eq show ?thesis by simp
  qed
  with le show ?thesis by blast
qed

text \<open>
  Claim C4. The ordered plane sequence is a rearrangement of the clusterer's planes; the
  sign loop numbers it with the ranks \<open>0..P-1\<close>; the reference values are non-decreasing
  along the ranks; and two planes with the same reference value stand in their creation
  order (the smaller plane id first): the sort is stable.
\<close>

theorem ordered_sorted_stable:
  assumes "length msk = length proj"
  shows "\<exists>planes. cluster tol msk proj = Inr planes \<and>
           length (ordered_of planes) = length planes \<and>
           set (ordered_of planes) = set planes \<and>
           distinct (ordered_of planes) \<and>
           map fst (enumerate 0 (map snd (ordered_of planes))) = [0..<length planes] \<and>
           (\<forall>r s. r < s \<and> s < length planes \<longrightarrow>
              ref_of (ordered_of planes ! r) \<le> ref_of (ordered_of planes ! s) \<and>
              (ref_of (ordered_of planes ! r) = ref_of (ordered_of planes ! s) \<longrightarrow>
                 fst (ordered_of planes ! r) < fst (ordered_of planes ! s)))"
proof -
  from cluster_prefix_ok[of proj msk "length proj" tol] assms obtain S where
    S: "cluster tol msk proj = Inr S" "ids_ok S" by auto
  have len: "length (ordered_of S) = length S" by (simp add: ordered_of_def)
  have "distinct S" using ids_ok_distinct[OF S(2)] by (rule distinct_map[THEN iffD1, THEN conjunct1])
  then have "distinct (ordered_of S)" by (simp add: ordered_of_def)
  moreover have "set (ordered_of S) = set S" by (simp add: ordered_of_def)
  moreover have "map fst (enumerate 0 (map snd (ordered_of S))) = [0..<length S]"
    by (simp add: len)
  moreover have "\<forall>r s. r < s \<and> s < length S \<longrightarrow>
              ref_of (ordered_of S ! r) \<le> ref_of (ordered_of S ! s) \<and>
              (ref_of (ordered_of S ! r) = ref_of (ordered_of S ! s) \<longrightarrow>
                 fst (ordered_of S ! r) < fst (ordered_of S ! s))"
    using ordered_of_stable[OF S(2)] len by auto
  ultimately show ?thesis using S(1) len by blast
qed

theorem ordered_sorted_stable_witness:
  "length [True, True, True, True] = length [5, 0, 5, 0 :: real] \<and>
   cluster 0 [True, True, True, True] [5, 0, 5, 0]
     = Inr [(0, 5, [0]), (1, 0, [1]), (2, 5, [2]), (3, 0, [3])] \<and>
   ((0 :: nat) < 1 \<and> (1 :: nat) < length [(0 :: nat, 5 :: real, [0 :: nat]), (1, 0, [1]), (2, 5, [2]), (3, 0, [3])]) \<and>
   ref_of (ordered_of [(0, 5, [0]), (1, 0, [1]), (2, 5, [2]), (3, 0, [3])] ! 0)
     = ref_of (ordered_of [(0, 5, [0]), (1, 0, [1]), (2, 5, [2]), (3, 0, [3])] ! 1) \<and>
   fst (ordered_of [(0, 5, [0]), (1, 0, [1]), (2, 5, [2]), (3, 0, [3])] ! 0)
     < fst (ordered_of [(0, 5, [0]), (1, 0, [1]), (2, 5, [2]), (3, 0, [3])] ! 1)"
proof -
  let ?S = "[(0 :: nat, 5 :: real, [0 :: nat]), (1, 0, [1]), (2, 5, [2]), (3, 0, [3])]"
  have c: "cluster 0 [True, True, True, True] [5, 0, 5, 0] = Inr ?S"
    by (simp add: cluster_def cluster_step_def next_pid_def)
  have o: "ordered_of ?S = [(1, 0, [1]), (3, 0, [3]), (0, 5, [0]), (2, 5, [2])]"
    by (simp add: ordered_of_def ref_of_def)
  have eq: "ref_of (ordered_of ?S ! 0) = ref_of (ordered_of ?S ! 1)"
    unfolding o by (simp add: ref_of_def)
  from ordered_sorted_stable[of "[True, True, True, True]" "[5, 0, 5, 0]" 0]
  obtain planes where
    1: "cluster 0 [True, True, True, True] [5, 0, 5, 0] = Inr planes" and
    2: "\<forall>r s. r < s \<and> s < length planes \<longrightarrow>
              ref_of (ordered_of planes ! r) \<le> ref_of (ordered_of planes ! s) \<and>
              (ref_of (ordered_of planes ! r) = ref_of (ordered_of planes ! s) \<longrightarrow>
                 fst (ordered_of planes ! r) < fst (ordered_of planes ! s))"
    by auto
  from 1 c have p: "planes = ?S" by simp
  have "(0 :: nat) < 1 \<and> (1 :: nat) < length ?S" by simp
  with 2[unfolded p] eq have "fst (ordered_of ?S ! 0) < fst (ordered_of ?S ! 1)" by blast
  with c eq show ?thesis by simp
qed

section \<open>Properties of the sign loop\<close>

lemma members_triple: "members (k, r, m) = m"
  by (simp add: members_def)

lemma assign_atoms_result:
  assumes "\<forall>idx\<in>set idx_list. idx < length (magmom_values out)"
  shows "\<exists>out'. assign_atoms sign M plane_id idx_list out = Inr out' \<and>
           length (magmom_values out') = length (magmom_values out) \<and>
           (\<forall>k. magmom_values out' ! k =
                  (if k \<in> set idx_list then of_int sign * M else magmom_values out ! k)) \<and>
           table_lines out' = table_lines out @ map (\<lambda>idx. (idx + 1, plane_id, sign)) idx_list"
  using assms
proof (induction idx_list arbitrary: out)
  case Nil
  then show ?case by simp
next
  case (Cons idx rest)
  let ?out1 = "out\<lparr>magmom_values := (magmom_values out)[idx := of_int sign * M],
                    table_lines := table_lines out @ [(idx + 1, plane_id, sign)]\<rparr>"
  from Cons.prems have idx: "idx < length (magmom_values out)"
     and rest: "\<forall>idx\<in>set rest. idx < length (magmom_values ?out1)" by simp_all
  from Cons.IH[OF rest] obtain out' where
    o: "assign_atoms sign M plane_id rest ?out1 = Inr out'"
       "length (magmom_values out') = length (magmom_values ?out1)"
       "\<forall>k. magmom_values out' ! k =
                  (if k \<in> set rest then of_int sign * M else magmom_values ?out1 ! k)"
       "table_lines out' = table_lines ?out1 @ map (\<lambda>idx. (idx + 1, plane_id, sign)) rest"
    by blast
  have "assign_atoms sign M plane_id (idx # rest) out = Inr out'"
    using idx o(1) by simp
  moreover have "length (magmom_values out') = length (magmom_values out)"
    using o(2) by simp
  moreover have "\<forall>k. magmom_values out' ! k =
                  (if k \<in> set (idx # rest) then of_int sign * M else magmom_values out ! k)"
    using o(3) idx by (auto simp: nth_list_update)
  moreover have "table_lines out' =
      table_lines out @ map (\<lambda>idx. (idx + 1, plane_id, sign)) (idx # rest)"
    using o(4) by simp
  ultimately show ?case by blast
qed

lemma assign_planes_result:
  assumes "L \<noteq> 0"
    and "\<forall>row\<in>set rows. \<forall>idx\<in>set (members row). idx < length (magmom_values out)"
    and "distinct (concat (map members rows))"
  shows "\<exists>out'. assign_planes L M rows out = Inr out' \<and>
           length (magmom_values out') = length (magmom_values out) \<and>
           (\<forall>row\<in>set rows. \<forall>idx\<in>set (members row).
              magmom_values out' ! idx = of_int (sign_of (fst row) L) * M) \<and>
           (\<forall>k. k \<notin> set (concat (map members rows)) \<longrightarrow>
              magmom_values out' ! k = magmom_values out ! k) \<and>
           table_lines out' = table_lines out @
             concat (map (\<lambda>row. map (\<lambda>idx. (idx + 1, fst row, sign_of (fst row) L)) (members row)) rows)"
  using assms(2,3)
proof (induction rows arbitrary: out)
  case Nil
  then show ?case by simp
next
  case (Cons row rows)
  obtain plane_id r idx_list where row: "row = (plane_id, r, idx_list)" by (cases row) auto
  from Cons.prems(1) have "\<forall>idx\<in>set idx_list. idx < length (magmom_values out)"
    by (simp add: row members_triple)
  from assign_atoms_result[OF this, of "sign_of plane_id L" M plane_id] obtain out1 where
    o1: "assign_atoms (sign_of plane_id L) M plane_id idx_list out = Inr out1"
        "length (magmom_values out1) = length (magmom_values out)"
        "\<forall>k. magmom_values out1 ! k =
           (if k \<in> set idx_list then of_int (sign_of plane_id L) * M else magmom_values out ! k)"
        "table_lines out1 = table_lines out @
           map (\<lambda>idx. (idx + 1, plane_id, sign_of plane_id L)) idx_list"
    by blast
  from Cons.prems have p1: "\<forall>row\<in>set rows. \<forall>idx\<in>set (members row). idx < length (magmom_values out1)"
    and p2: "distinct (concat (map members rows))"
    and disj: "set idx_list \<inter> set (concat (map members rows)) = {}"
    by (simp_all add: o1(2) row members_triple)
  from Cons.IH[OF p1 p2] obtain out' where
    o': "assign_planes L M rows out1 = Inr out'"
        "length (magmom_values out') = length (magmom_values out1)"
        "\<forall>row\<in>set rows. \<forall>idx\<in>set (members row).
              magmom_values out' ! idx = of_int (sign_of (fst row) L) * M"
        "\<forall>k. k \<notin> set (concat (map members rows)) \<longrightarrow>
              magmom_values out' ! k = magmom_values out1 ! k"
        "table_lines out' = table_lines out1 @
           concat (map (\<lambda>row. map (\<lambda>idx. (idx + 1, fst row, sign_of (fst row) L)) (members row)) rows)"
    by blast
  have "assign_planes L M (row # rows) out = Inr out'"
    using assms(1) o1(1) o'(1) by (simp add: row)
  moreover have "length (magmom_values out') = length (magmom_values out)"
    using o'(2) o1(2) by simp
  moreover have "\<forall>row'\<in>set (row # rows). \<forall>idx\<in>set (members row').
              magmom_values out' ! idx = of_int (sign_of (fst row') L) * M"
  proof (intro ballI)
    fix row' idx assume a: "row' \<in> set (row # rows)" "idx \<in> set (members row')"
    show "magmom_values out' ! idx = of_int (sign_of (fst row') L) * M"
    proof (cases "row' \<in> set rows")
      case True
      with o'(3) a(2) show ?thesis by blast
    next
      case False
      with a have r': "row' = row" and i: "idx \<in> set idx_list" by (auto simp: row members_triple)
      with disj have "idx \<notin> set (concat (map members rows))" by blast
      with o'(4) have "magmom_values out' ! idx = magmom_values out1 ! idx" by blast
      with o1(3) i show ?thesis by (simp add: r' row)
    qed
  qed
  moreover have "\<forall>k. k \<notin> set (concat (map members (row # rows))) \<longrightarrow>
              magmom_values out' ! k = magmom_values out ! k"
    using o'(4) o1(3) by (simp add: row members_triple)
  moreover have "table_lines out' = table_lines out @
      concat (map (\<lambda>row. map (\<lambda>idx. (idx + 1, fst row, sign_of (fst row) L)) (members row)) (row # rows))"
    using o'(5) o1(4) by (simp add: row members_triple)
  ultimately show ?case by blast
qed

lemma set_concat_insort:
  "set (concat (map f (insort_key g x xs))) = set (f x) \<union> set (concat (map f xs))"
  by (simp add: set_insort_key) 

lemma distinct_concat_insort:
  "distinct (concat (map f (insort_key g x xs))) = distinct (f x @ concat (map f xs))"
proof (induction xs)
  case Nil
  then show ?case by simp
next
  case (Cons y ys)
  show ?case
  proof (cases "g x \<le> g y")
    case True
    then show ?thesis by simp
  next
    case False
    have "distinct (concat (map f (insort_key g x (y # ys)))) =
            distinct (f y @ concat (map f (insort_key g x ys)))"
      using False by simp
    also have "\<dots> = (distinct (f y) \<and> distinct (f x @ concat (map f ys)) \<and>
                      set (f y) \<inter> (set (f x) \<union> set (concat (map f ys))) = {})"
      using Cons.IH set_concat_insort[of f g x ys] by (simp only: distinct_append)
    also have "\<dots> = distinct (f x @ concat (map f (y # ys)))"
      by auto
    finally show ?thesis .
  qed
qed

lemma distinct_concat_sort:
  "distinct (concat (map f (sort_key g xs))) = distinct (concat (map f xs))"
  by (induction xs) (simp_all add: distinct_concat_insort set_insort_key)

lemma members_enumerate:
  "map members (enumerate n (map snd xs)) = map members xs"
  by (induction xs arbitrary: n) (simp_all add: members_def)

lemma rows_enumerate:
  "map (\<lambda>row. F (fst row) (members row)) (enumerate n (map snd xs)) =
   map (\<lambda>(r, kv). F r (members kv)) (enumerate n xs)"
  by (induction xs arbitrary: n) (simp_all add: members_def)

lemma main_core_signs:
  assumes "length msk = length proj" and "natoms = length proj" and "L \<noteq> 0"
  shows "\<exists>planes out. cluster tol msk proj = Inr planes \<and>
           main_core natoms proj msk tol L M = Inr (ordered_of planes, out) \<and>
           length (magmom_values out) = natoms \<and>
           (\<forall>r<length planes. \<forall>idx\<in>set (members (ordered_of planes ! r)).
              magmom_values out ! idx = of_int (sign_of r L) * M) \<and>
           (\<forall>i<natoms. \<not> msk ! i \<longrightarrow> magmom_values out ! i = 0) \<and>
           table_lines out =
             concat (map (\<lambda>(r, kv). map (\<lambda>idx. (idx + 1, r, sign_of r L)) (members kv))
                       (enumerate 0 (ordered_of planes)))"
proof -
  from cluster_members[of proj msk "length proj" tol] assms(1) obtain S where
    S: "cluster tol msk proj = Inr S" "distinct (concat (map members S))"
       "set (concat (map members S)) = {i. i < length proj \<and> msk ! i}"
    by auto
  let ?o = "ordered_of S"
  let ?rows = "enumerate 0 (map snd ?o)"
  let ?out0 = "\<lparr>magmom_values = replicate natoms (0 :: real), table_lines = []\<rparr>"
  have len: "length ?o = length S" by (simp add: ordered_of_def)
  have mem: "map members ?rows = map members ?o" by (rule members_enumerate)
  have set_o: "set (concat (map members ?o)) = {i. i < length proj \<and> msk ! i}"
    using S(3) by (simp add: ordered_of_def)
  have d: "distinct (concat (map members ?rows))"
  proof -
    have "distinct (concat (map members ?o))"
      using S(2) by (simp add: ordered_of_def distinct_concat_sort)
    then show ?thesis by (simp only: mem)
  qed
  have b: "\<forall>row\<in>set ?rows. \<forall>idx\<in>set (members row). idx < length (magmom_values ?out0)"
  proof (intro ballI)
    fix row idx assume "row \<in> set ?rows" "idx \<in> set (members row)"
    then have "idx \<in> set (concat (map members ?rows))" by auto
    then have "idx \<in> {i. i < length proj \<and> msk ! i}" unfolding mem set_o .
    then show "idx < length (magmom_values ?out0)" using assms(2) by simp
  qed
  from assign_planes_result[OF assms(3) b d, of M] obtain out where
    out: "assign_planes L M ?rows ?out0 = Inr out"
      "length (magmom_values out) = length (magmom_values ?out0)"
      "\<forall>row\<in>set ?rows. \<forall>idx\<in>set (members row).
              magmom_values out ! idx = of_int (sign_of (fst row) L) * M"
      "\<forall>k. k \<notin> set (concat (map members ?rows)) \<longrightarrow>
              magmom_values out ! k = magmom_values ?out0 ! k"
      "table_lines out = table_lines ?out0 @
         concat (map (\<lambda>row. map (\<lambda>idx. (idx + 1, fst row, sign_of (fst row) L)) (members row)) ?rows)"
    by blast
  have 1: "main_core natoms proj msk tol L M = Inr (?o, out)"
    using S(1) out(1) by (simp add: main_core_def)
  have 2: "length (magmom_values out) = natoms" using out(2) by simp
  have 3: "\<forall>r<length S. \<forall>idx\<in>set (members (?o ! r)).
              magmom_values out ! idx = of_int (sign_of r L) * M"
  proof (intro allI impI ballI)
    fix r idx assume r: "r < length S" and idx: "idx \<in> set (members (?o ! r))"
    from r len have row: "?rows ! r = (r, snd (?o ! r))" by (simp add: nth_enumerate_eq)
    from r len have "?rows ! r \<in> set ?rows" by (simp del: enumerate_simps)
    moreover have "members (?rows ! r) = members (?o ! r)" unfolding row by (simp add: members_def)
    ultimately show "magmom_values out ! idx = of_int (sign_of r L) * M"
      using out(3) idx row by (metis (no_types, lifting) fst_conv)
  qed
  have 4: "\<forall>i<natoms. \<not> msk ! i \<longrightarrow> magmom_values out ! i = 0"
  proof (intro allI impI)
    fix i assume i: "i < natoms" "\<not> msk ! i"
    then have "i \<notin> set (concat (map members ?rows))" unfolding mem set_o by simp
    with out(4) have "magmom_values out ! i = magmom_values ?out0 ! i" by blast
    with i(1) show "magmom_values out ! i = 0" by simp
  qed
  have 5: "table_lines out =
             concat (map (\<lambda>(r, kv). map (\<lambda>idx. (idx + 1, r, sign_of r L)) (members kv))
                       (enumerate 0 ?o))"
    using out(5) rows_enumerate[of "\<lambda>r m. map (\<lambda>idx. (idx + 1, r, sign_of r L)) m" 0 ?o]
    by simp
  from S(1) 1 2 3 4 5 show ?thesis by blast
qed

lemma sign_of_one: "sign_of r 1 = (if even r then 1 else - 1)"
  by (simp add: sign_of_def even_iff_mod_2_eq_zero) presburger

lemma sign_of_two: "sign_of r 2 = (if r mod 4 < 2 then 1 else - 1)"
  unfolding sign_of_def by (simp; presburger)

lemma sign_of_all: "r < P \<Longrightarrow> sign_of r (int P) = 1"
  by (simp add: sign_of_def)

text \<open>
  Claim C2. For a block size \<open>L \<ge> 1\<close> the run ends without an error; every atom of the plane of
  rank \<open>r\<close> receives the moment \<open>sign * M\<close>, and every table row of that plane carries the rank
  \<open>r\<close> and the sign, where the sign is \<open>+1\<close> if \<open>(r // L) % 2 = 0\<close> and \<open>-1\<close> otherwise. With
  \<open>L = 1\<close> the sign changes at every plane, with \<open>L = 2\<close> at every second plane, and with \<open>L\<close>
  equal to the number of planes every plane has the sign \<open>+1\<close>.
\<close>

theorem sign_blocks:
  assumes "length msk = length proj" and "natoms = length proj" and "1 \<le> L"
  shows "\<exists>ordered out. main_core natoms proj msk tol L M = Inr (ordered, out) \<and>
     (\<forall>r<length ordered. \<forall>idx\<in>set (members (ordered ! r)).
        magmom_values out ! idx = (if (int r div L) mod 2 = 0 then 1 else - 1) * M) \<and>
     table_lines out =
       concat (map (\<lambda>(r, kv). map (\<lambda>idx. (idx + 1, r, if (int r div L) mod 2 = 0 then 1 else - 1))
                                  (members kv))
                 (enumerate 0 ordered)) \<and>
     (L = 1 \<longrightarrow> (\<forall>r<length ordered. \<forall>idx\<in>set (members (ordered ! r)).
        magmom_values out ! idx = (if even r then M else - M))) \<and>
     (L = 2 \<longrightarrow> (\<forall>r<length ordered. \<forall>idx\<in>set (members (ordered ! r)).
        magmom_values out ! idx = (if r mod 4 < 2 then M else - M))) \<and>
     (L = int (length ordered) \<longrightarrow> (\<forall>r<length ordered. \<forall>idx\<in>set (members (ordered ! r)).
        magmom_values out ! idx = M))"
proof -
  from assms(3) have L: "L \<noteq> 0" by simp
  from main_core_signs[OF assms(1,2) L, of tol M] obtain planes out where
    m: "main_core natoms proj msk tol L M = Inr (ordered_of planes, out)" and
    s: "\<forall>r<length planes. \<forall>idx\<in>set (members (ordered_of planes ! r)).
              magmom_values out ! idx = of_int (sign_of r L) * M" and
    t: "table_lines out =
             concat (map (\<lambda>(r, kv). map (\<lambda>idx. (idx + 1, r, sign_of r L)) (members kv))
                       (enumerate 0 (ordered_of planes)))"
    by blast
  let ?o = "ordered_of planes"
  have len: "length ?o = length planes" by (simp add: ordered_of_def)
  have 1: "\<forall>r<length ?o. \<forall>idx\<in>set (members (?o ! r)).
        magmom_values out ! idx = (if (int r div L) mod 2 = 0 then 1 else - 1) * M"
    using s len by (simp add: sign_of_def)
  have 2: "table_lines out =
       concat (map (\<lambda>(r, kv). map (\<lambda>idx. (idx + 1, r, if (int r div L) mod 2 = 0 then 1 else - 1))
                                  (members kv))
                 (enumerate 0 ?o))"
    using t by (simp only: sign_of_def)
  have 3: "\<forall>r<length ?o. \<forall>idx\<in>set (members (?o ! r)).
        magmom_values out ! idx = (if even r then M else - M)" if "L = 1"
    using s len that by (simp add: sign_of_one)
  have 4: "\<forall>r<length ?o. \<forall>idx\<in>set (members (?o ! r)).
        magmom_values out ! idx = (if r mod 4 < 2 then M else - M)" if "L = 2"
    using s len that by (simp add: sign_of_two)
  have 5: "\<forall>r<length ?o. \<forall>idx\<in>set (members (?o ! r)).
        magmom_values out ! idx = M" if "L = int (length ?o)"
    using s len that by (simp add: sign_of_all)
  from m 1 2 3 4 5 show ?thesis by blast
qed

theorem sign_blocks_witness:
  "length [True, True, True, True] = length [0, 0, 5, 5 :: real] \<and>
   (4 :: nat) = length [0, 0, 5, 5 :: real] \<and> (1 :: int) \<le> 1 \<and>
   main_core 4 [0, 0, 5, 5] [True, True, True, True] (1 / 50) 1 1 =
      Inr ([(0, 0, [0, 1]), (1, 5, [2, 3])],
           \<lparr>magmom_values = [1, 1, - 1, - 1],
              table_lines = [(1, 0, 1), (2, 0, 1), (3, 1, - 1), (4, 1, - 1)]\<rparr>) \<and>
   (1 :: nat) < length [(0 :: nat, 0 :: real, [0, 1 :: nat]), (1, 5, [2, 3])] \<and>
   (2 :: nat) \<in> set (members ([(0 :: nat, 0 :: real, [0, 1 :: nat]), (1, 5, [2, 3])] ! 1)) \<and>
   magmom_values \<lparr>magmom_values = [1, 1, - 1, - 1 :: real],
              table_lines = [(1 :: nat, 0 :: nat, 1 :: int), (2, 0, 1), (3, 1, - 1), (4, 1, - 1)]\<rparr> ! 2
     = (if (int 1 div 1) mod 2 = 0 then 1 else - 1) * 1"
proof -
  let ?O = "[(0 :: nat, 0 :: real, [0, 1 :: nat]), (1, 5, [2, 3])]"
  let ?out = "\<lparr>magmom_values = [1, 1, - 1, - 1 :: real],
              table_lines = [(1 :: nat, 0 :: nat, 1 :: int), (2, 0, 1), (3, 1, - 1), (4, 1, - 1)]\<rparr>"
  have e: "main_core 4 [0, 0, 5, 5] [True, True, True, True] (1 / 50) 1 1 = Inr (?O, ?out)"
    by (simp add: main_core_def cluster_def cluster_step_def next_pid_def ordered_of_def
        ref_of_def sign_of_def eval_nat_numeral)
  have h: "length [True, True, True, True] = length [0, 0, 5, 5 :: real]"
    "(4 :: nat) = length [0, 0, 5, 5 :: real]" "(1 :: int) \<le> 1"
    by simp_all
  from sign_blocks[OF h, of "1 / 50" 1] obtain ordered out where
    1: "main_core 4 [0, 0, 5, 5] [True, True, True, True] (1 / 50) 1 1 = Inr (ordered, out)" and
    2: "\<forall>r<length ordered. \<forall>idx\<in>set (members (ordered ! r)).
        magmom_values out ! idx = (if (int r div 1) mod 2 = 0 then 1 else - 1) * 1"
    by blast
  from 1 e have o: "ordered = ?O" "out = ?out" by simp_all
  have r: "(1 :: nat) < length ?O" by simp
  have i: "(2 :: nat) \<in> set (members (?O ! 1))" by (simp add: members_def)
  from 2[unfolded o] r i have "magmom_values ?out ! 2 = (if (int 1 div 1) mod 2 = 0 then 1 else - 1) * 1"
    by blast
  with h e r i show ?thesis by blast
qed

lemma cluster_empty_iff:
  assumes "length msk = length proj"
  shows "\<exists>S. cluster tol msk proj = Inr S \<and> (S = [] \<longleftrightarrow> (\<forall>i<length proj. \<not> msk ! i))"
proof -
  from cluster_members[of proj msk "length proj" tol] assms obtain S where
    S: "cluster tol msk proj = Inr S"
       "set (concat (map members S)) = {i. i < length proj \<and> msk ! i}"
       "\<forall>kv\<in>set S. members kv \<noteq> []"
    by auto
  have "S = [] \<longleftrightarrow> (\<forall>i<length proj. \<not> msk ! i)"
  proof
    assume "S = []"
    with S(2) show "\<forall>i<length proj. \<not> msk ! i" by auto
  next
    assume none: "\<forall>i<length proj. \<not> msk ! i"
    show "S = []"
    proof (cases S)
      case Nil
      then show ?thesis .
    next
      case (Cons kv S')
      with S(3) obtain i where "i \<in> set (members kv)" by (cases "members kv") auto
      with Cons have "i \<in> set (concat (map members S))" by simp
      with S(2) none show ?thesis by auto
    qed
  qed
  with S(1) show ?thesis by blast
qed

lemma main_core_zero_layers:
  assumes "length msk = length proj"
  shows "main_core natoms proj msk tol 0 M =
           (if \<exists>i<length proj. msk ! i then Inl ZeroDivisionError
            else Inr ([], \<lparr>magmom_values = replicate natoms 0, table_lines = []\<rparr>))"
proof -
  from cluster_empty_iff[OF assms, of tol] obtain S where
    S: "cluster tol msk proj = Inr S" "S = [] \<longleftrightarrow> (\<forall>i<length proj. \<not> msk ! i)" by blast
  show ?thesis
  proof (cases S)
    case Nil
    with S show ?thesis by (simp add: main_core_def ordered_of_def)
  next
    case (Cons kv S')
    then have "length (ordered_of S) = Suc (length S')" by (simp add: ordered_of_def)
    then obtain kv' o' where o: "ordered_of S = kv' # o'" by (cases "ordered_of S") auto
    obtain r m where "snd kv' = (r, m)" by (cases "snd kv'") auto
    then have "assign_planes 0 M (enumerate 0 (map snd (ordered_of S))) out = Inl ZeroDivisionError" for out
      by (simp add: o)
    moreover from Cons S(2) have "\<exists>i<length proj. msk ! i" by auto
    ultimately show ?thesis using S(1) by (simp add: main_core_def)
  qed
qed

text \<open>
  Claim C7, amended. The script does not check the block size. A negative \<open>L\<close> raises no
  error: the signs are assigned by the same expression, \<open>+1\<close> if \<open>(r // L) % 2 = 0\<close> and \<open>-1\<close>
  otherwise, with the division rounding down. \<open>L = 0\<close> raises \<^verbatim>\<open>ZeroDivisionError\<close> at the first
  plane, before any moment is assigned, when at least one atom is selected; with no
  selected atom there is no plane and the run ends normally with all moments zero.
\<close>

theorem layers_unchecked:
  assumes "length msk = length proj" and "natoms = length proj" and "L < 1"
  shows "(L < 0 \<longrightarrow>
            (\<exists>ordered out. main_core natoms proj msk tol L M = Inr (ordered, out) \<and>
               (\<forall>r<length ordered. \<forall>idx\<in>set (members (ordered ! r)).
                  magmom_values out ! idx = (if (int r div L) mod 2 = 0 then 1 else - 1) * M))) \<and>
         (L = 0 \<longrightarrow>
            main_core natoms proj msk tol L M =
              (if \<exists>i<natoms. msk ! i then Inl ZeroDivisionError
               else Inr ([], \<lparr>magmom_values = replicate natoms 0, table_lines = []\<rparr>)))"
proof (intro conjI impI)
  assume "L < 0"
  then have L: "L \<noteq> 0" by simp
  from main_core_signs[OF assms(1,2) L, of tol M] obtain planes out where
    m: "main_core natoms proj msk tol L M = Inr (ordered_of planes, out)" and
    s: "\<forall>r<length planes. \<forall>idx\<in>set (members (ordered_of planes ! r)).
              magmom_values out ! idx = of_int (sign_of r L) * M"
    by blast
  have len: "length (ordered_of planes) = length planes" by (simp add: ordered_of_def)
  have "\<forall>r<length (ordered_of planes). \<forall>idx\<in>set (members (ordered_of planes ! r)).
        magmom_values out ! idx = (if (int r div L) mod 2 = 0 then 1 else - 1) * M"
    using s len by (simp add: sign_of_def)
  with m show "\<exists>ordered out. main_core natoms proj msk tol L M = Inr (ordered, out) \<and>
               (\<forall>r<length ordered. \<forall>idx\<in>set (members (ordered ! r)).
                  magmom_values out ! idx = (if (int r div L) mod 2 = 0 then 1 else - 1) * M)"
    by blast
next
  assume "L = 0"
  then show "main_core natoms proj msk tol L M =
              (if \<exists>i<natoms. msk ! i then Inl ZeroDivisionError
               else Inr ([], \<lparr>magmom_values = replicate natoms 0, table_lines = []\<rparr>))"
    using main_core_zero_layers[OF assms(1), of natoms tol M] assms(2) by simp
qed

text \<open>
  Claim C7 as stated fails: with \<open>L = -1\<close> the sign loop raises nothing and assigns the
  signs \<open>+1\<close>, \<open>-1\<close> to two planes.
\<close>

theorem layers_negative_counterexample:
  "main_core 2 [0, 5] [True, True] (1 / 50) (- 1) 1 =
     Inr ([(0, 0, [0]), (1, 5, [1])],
          \<lparr>magmom_values = [1, - 1], table_lines = [(1, 0, 1), (2, 1, - 1)]\<rparr>)"
  by (simp add: main_core_def cluster_def cluster_step_def next_pid_def ordered_of_def
        ref_of_def sign_of_def eval_nat_numeral)

theorem layers_unchecked_witness:
  "length [True, True] = length [0, 5 :: real] \<and> (2 :: nat) = length [0, 5 :: real] \<and>
   (- 1 :: int) < 1 \<and> (- 1 :: int) < 0 \<and> (0 :: int) < 1 \<and>
   (\<exists>ordered out. main_core 2 [0, 5] [True, True] (1 / 50) (- 1) 1 = Inr (ordered, out)) \<and>
   (\<exists>i<2. [True, True] ! i) \<and>
   main_core 2 [0, 5] [True, True] (1 / 50) 0 1 = Inl ZeroDivisionError"
proof -
  have h: "length [True, True] = length [0, 5 :: real]" "(2 :: nat) = length [0, 5 :: real]"
    by simp_all
  have n: "(- 1 :: int) < 1" "(- 1 :: int) < 0" and z: "(0 :: int) < 1" by simp_all
  have s: "\<exists>i<2. [True, True] ! i" by (rule exI[of _ 0]) simp
  from layers_unchecked[OF h n(1), of "1 / 50" 1] n(2)
  have 1: "\<exists>ordered out. main_core 2 [0, 5] [True, True] (1 / 50) (- 1) 1 = Inr (ordered, out)"
    by blast
  from layers_unchecked[OF h z, of "1 / 50" 1] s
  have 2: "main_core 2 [0, 5] [True, True] (1 / 50) 0 1 = Inl ZeroDivisionError"
    by simp
  from h n z s 1 2 show ?thesis by blast
qed

lemma cluster_nonpositive_tol:
  assumes "length proj \<le> length msk" and "n \<le> length proj" and "tol \<le> 0"
  shows "\<exists>S. cluster tol msk (take n proj) = Inr S \<and> ids_ok S \<and>
           S = map (\<lambda>(k, i). (k, proj ! i, [i]))
                 (enumerate 0 (filter (\<lambda>i. msk ! i) [0..<n]))"
proof (rule cluster_induct[OF assms(1,2)], goal_cases)
  case 1
  show ?case by simp
next
  case (2 n S)
  then show ?case by simp
next
  case (3 n S)
  then have "length S = length (filter (\<lambda>i. msk ! i) [0..<n])" by simp
  with 3 show ?case by (simp add: enumerate_append_eq)
next
  case (4 n S j)
  have "0 \<le> \<bar>proj ! n - ref_of (S ! j)\<bar>" by simp
  with 4(6) assms(3) show ?case by linarith
qed

text \<open>
  Claim C8, amended. The script does not check the tolerance. With \<open>tol \<le> 0\<close> no error is
  raised and the clusterer runs: \<open>\<bar>p - ref\<bar> < tol\<close> never holds, so every selected atom
  becomes a plane of its own, with its projection as the reference value, in atom order;
  and the rest of the run ends normally for any \<open>L \<noteq> 0\<close>.
\<close>

theorem tolerance_unchecked:
  assumes "length msk = length proj" and "natoms = length proj" and "tol \<le> 0"
  shows "cluster tol msk proj =
           Inr (map (\<lambda>(k, i). (k, proj ! i, [i]))
                  (enumerate 0 (filter (\<lambda>i. msk ! i) [0..<length proj]))) \<and>
         (L \<noteq> 0 \<longrightarrow> (\<exists>ordered out. main_core natoms proj msk tol L M = Inr (ordered, out)))"
proof -
  from cluster_nonpositive_tol[of proj msk "length proj" tol] assms(1,3)
  have "cluster tol msk proj =
           Inr (map (\<lambda>(k, i). (k, proj ! i, [i]))
                  (enumerate 0 (filter (\<lambda>i. msk ! i) [0..<length proj])))"
    by auto
  moreover have "\<exists>ordered out. main_core natoms proj msk tol L M = Inr (ordered, out)" if "L \<noteq> 0"
    using main_core_signs[OF assms(1,2) that, of tol M] by blast
  ultimately show ?thesis by blast
qed

text \<open>
  Claim C8 as stated fails: with \<open>tol = 0\<close> the run raises nothing; two atoms with the same
  projection land in two planes and get opposite signs.
\<close>

theorem tolerance_zero_counterexample:
  "main_core 2 [0, 0] [True, True] 0 1 1 =
     Inr ([(0, 0, [0]), (1, 0, [1])],
          \<lparr>magmom_values = [1, - 1], table_lines = [(1, 0, 1), (2, 1, - 1)]\<rparr>)"
  by (simp add: main_core_def cluster_def cluster_step_def next_pid_def ordered_of_def
        ref_of_def sign_of_def eval_nat_numeral)

theorem tolerance_unchecked_witness:
  "length [True, True] = length [0, 0 :: real] \<and> (2 :: nat) = length [0, 0 :: real] \<and>
   (0 :: real) \<le> 0 \<and> (1 :: int) \<noteq> 0 \<and>
   cluster 0 [True, True] [0, 0] = Inr [(0, 0, [0]), (1, 0, [1])] \<and>
   (\<exists>ordered out. main_core 2 [0, 0] [True, True] 0 1 1 = Inr (ordered, out))"
proof -
  have h: "length [True, True] = length [0, 0 :: real]" "(2 :: nat) = length [0, 0 :: real]"
    "(0 :: real) \<le> 0" by simp_all
  have l: "(1 :: int) \<noteq> 0" by simp
  have f: "map (\<lambda>(k, i). (k, [0, 0 :: real] ! i, [i]))
             (enumerate 0 (filter (\<lambda>i. [True, True] ! i) [0..<length [0, 0 :: real]]))
           = [(0, 0, [0]), (1, 0, [1])]"
    by (simp add: eval_nat_numeral upt_rec)
  from tolerance_unchecked[OF h, of 1 1] l
  have "cluster 0 [True, True] [0, 0] = Inr [(0, 0, [0]), (1, 0, [1])]"
    and "\<exists>ordered out. main_core 2 [0, 0] [True, True] 0 1 1 = Inr (ordered, out)"
    unfolding f by blast+
  with h l show ?thesis by blast
qed

section \<open>Properties of the projector\<close>

text \<open>
  Claim C5. The direction is taken as lattice-fractional, and converted by \<open>v \<cdot> lattice\<close>,
  exactly when each of its three components has an absolute value of at most 1; otherwise
  it is used unchanged as a Cartesian vector. On the boundary, \<open>[1,0,0]\<close> is fractional (it
  becomes the first lattice vector) and \<open>[1.0001,0,0]\<close> is Cartesian.
\<close>

theorem direction_fractional_iff:
  "(\<bar>x\<bar> \<le> 1 \<and> \<bar>y\<bar> \<le> 1 \<and> \<bar>z\<bar> \<le> 1 \<longrightarrow> n_cart (x, y, z) lat = vec_mat (x, y, z) lat) \<and>
   (\<not> (\<bar>x\<bar> \<le> 1 \<and> \<bar>y\<bar> \<le> 1 \<and> \<bar>z\<bar> \<le> 1) \<longrightarrow> n_cart (x, y, z) lat = (x, y, z)) \<and>
   n_cart (1, 0, 0) (a, b, c) = a \<and>
   n_cart (10001 / 10000, 0, 0) lat = (10001 / 10000, 0, 0)"
proof -
  obtain a1 a2 a3 where a: "a = (a1, a2, a3)" by (cases a) auto
  obtain b1 b2 b3 where b: "b = (b1, b2, b3)" by (cases b) auto
  obtain c1 c2 c3 where c: "c = (c1, c2, c3)" by (cases c) auto
  have "n_cart (1, 0, 0) (a, b, c) = a"
    by (simp add: n_cart_def a b c)
  then show ?thesis by (simp add: n_cart_def)
qed

theorem direction_fractional_iff_witness:
  "\<bar>1 :: real\<bar> \<le> 1 \<and> \<bar>0 :: real\<bar> \<le> 1 \<and>
   n_cart (1, 0, 0) ((10, 0, 0), (0, 10, 0), (0, 0, 10)) = (10, 0, 0) \<and>
   \<not> (\<bar>2 :: real\<bar> \<le> 1 \<and> \<bar>0 :: real\<bar> \<le> 1 \<and> \<bar>0 :: real\<bar> \<le> 1) \<and>
   n_cart (2, 0, 0) ((10, 0, 0), (0, 10, 0), (0, 0, 10)) = (2, 0, 0)"
  using direction_fractional_iff[of 1 0 0 "((10, 0, 0), (0, 10, 0), (0, 0, 10))"]
        direction_fractional_iff[of 2 0 0 "((10, 0, 0), (0, 10, 0), (0, 0, 10))"]
  by simp

lemma norm3_zero: "norm3 (x, y, z) = 0 \<longleftrightarrow> x = 0 \<and> y = 0 \<and> z = 0"
proof -
  have "x * x + y * y + z * z = 0 \<longleftrightarrow> x = 0 \<and> y = 0 \<and> z = 0"
  proof
    assume s: "x * x + y * y + z * z = 0"
    have "0 \<le> x * x" "0 \<le> y * y" "0 \<le> z * z" by simp_all
    with s have "x * x = 0" "y * y = 0" "z * z = 0" by linarith+
    then show "x = 0 \<and> y = 0 \<and> z = 0" by simp
  qed simp
  then show ?thesis by simp
qed

lemma dot_NaN: "dot_n_hat c (NaN, NaN, NaN) = NaN"
  by (cases c) simp

text \<open>
  Claim C6, amended. The projector raises no error, whatever the direction. When the
  resolved Cartesian vector has norm zero, the normalisation divides zero by zero: every
  component of \<open>n_hat\<close> is \<^verbatim>\<open>nan\<close>, and so is the projection of every atom.
\<close>

theorem zero_norm_unchecked:
  "(\<exists>v. n_hat n_vec lat = Inr v) \<and>
   (norm3 (n_cart n_vec lat) = 0 \<longrightarrow>
      n_hat n_vec lat = Inr (NaN, NaN, NaN) \<and>
      projections n_vec lat fracs = Inr (replicate (length fracs) NaN))"
proof -
  obtain x y z where c: "n_cart n_vec lat = (x, y, z)" by (cases "n_cart n_vec lat") auto
  have "\<exists>v. n_hat n_vec lat = Inr v" by (simp add: n_hat_def c Let_def)
  moreover have "n_hat n_vec lat = Inr (NaN, NaN, NaN) \<and>
      projections n_vec lat fracs = Inr (replicate (length fracs) NaN)" if "norm3 (n_cart n_vec lat) = 0"
  proof -
    from that have "x = 0 \<and> y = 0 \<and> z = 0" unfolding c by (simp only: norm3_zero)
    then have n: "n_hat n_vec lat = Inr (NaN, NaN, NaN)" by (simp add: n_hat_def c np_divide_def)
    have "map (\<lambda>f. dot_n_hat (vec_mat f lat) (NaN, NaN, NaN)) fracs = replicate (length fracs) NaN"
      by (simp add: dot_NaN map_replicate_const)
    with n show ?thesis by (simp add: projections_def)
  qed
  ultimately show ?thesis by blast
qed

text \<open>
  Claim C6 as stated fails: for the direction \<open>[0,0,0]\<close> the projector returns
  projection values, all \<^verbatim>\<open>nan\<close>, and no error.
\<close>

theorem zero_direction_counterexample:
  "projections (0, 0, 0) ((10, 0, 0), (0, 10, 0), (0, 0, 10)) [(0, 0, 0), (0, 0, 1 / 2)] =
     Inr [NaN, NaN]"
  by (simp add: projections_def n_hat_def n_cart_def np_divide_def)

theorem zero_norm_unchecked_witness:
  "norm3 (n_cart (0, 0, 0) ((10, 0, 0), (0, 10, 0), (0, 0, 10))) = 0 \<and>
   n_hat (0, 0, 0) ((10, 0, 0), (0, 10, 0), (0, 0, 10)) = Inr (NaN, NaN, NaN) \<and>
   projections (0, 0, 0) ((10, 0, 0), (0, 10, 0), (0, 0, 10)) [(0, 0, 0), (0, 0, 1 / 2)] =
     Inr (replicate (length [(0 :: real, 0 :: real, 0 :: real), (0, 0, 1 / 2)]) NaN)"
proof -
  have h: "norm3 (n_cart (0, 0, 0) ((10, 0, 0), (0, 10, 0), (0, 0, 10))) = 0"
    by (simp add: n_cart_def)
  with zero_norm_unchecked[of "(0, 0, 0)" "((10, 0, 0), (0, 10, 0), (0, 0, 10))"
         "[(0, 0, 0), (0, 0, 1 / 2)]"]
  show ?thesis by blast
qed

section \<open>Properties of the atom selection\<close>

text \<open>
  Claim C9. An index list with an index outside \<open>1..N\<close> should fail. The index \<open>0\<close> does
  not: \<^verbatim>\<open>int(x)-1\<close> is \<open>-1\<close>, which numpy takes as the last position, so \<^verbatim>\<open>"0"\<close> on two
  atoms selects the second atom and raises nothing. An index above \<open>N\<close> does raise
  (\<^verbatim>\<open>IndexError\<close>), and in-range indices give the expected mask.
\<close>

theorem index_zero_selects_last:
  "parse_atom_selection ''0'' [''Fe'', ''Ni''] = Inr [False, True] \<and>
   parse_atom_selection ''3'' [''Fe'', ''Ni''] = Inl IndexError \<and>
   parse_atom_selection ''1 2'' [''Fe'', ''Ni''] = Inr [True, True]"
  by code_simp

text \<open>
  Claim C10. For a specifier other than \<^verbatim>\<open>all\<close>: when the tokens are not all digit strings,
  every token is taken as an element label, so the mask marks the atoms whose label is one
  of the tokens; the numeric tokens of such a mixed list then select nothing (element
  labels not being digit strings). Only when every token is a digit string are the
  tokens taken as 1-based indices.
\<close>

theorem mixed_tokens_are_labels:
  assumes "lower atom_str \<noteq> ''all''"
  shows "(\<not> list_all isdigit (split atom_str) \<longrightarrow>
            parse_atom_selection atom_str elems = Inr (map (\<lambda>e. e \<in> set (split atom_str)) elems) \<and>
            ((\<forall>e\<in>set elems. \<not> isdigit e) \<longrightarrow>
               parse_atom_selection atom_str elems =
                 Inr (map (\<lambda>e. e \<in> set (filter (\<lambda>t. \<not> isdigit t) (split atom_str))) elems))) \<and>
         (list_all isdigit (split atom_str) \<longrightarrow>
            parse_atom_selection atom_str elems =
              set_true (replicate (length elems) False)
                (map (\<lambda>x. int_of_str x - 1) (split atom_str)))"
proof (intro conjI impI)
  assume m: "\<not> list_all isdigit (split atom_str)"
  with assms show 1: "parse_atom_selection atom_str elems =
      Inr (map (\<lambda>e. e \<in> set (split atom_str)) elems)"
    by (simp add: parse_atom_selection_def Let_def)
  assume "\<forall>e\<in>set elems. \<not> isdigit e"
  then have "map (\<lambda>e. e \<in> set (split atom_str)) elems =
             map (\<lambda>e. e \<in> set (filter (\<lambda>t. \<not> isdigit t) (split atom_str))) elems"
    by (intro map_cong) auto
  with 1 show "parse_atom_selection atom_str elems =
                 Inr (map (\<lambda>e. e \<in> set (filter (\<lambda>t. \<not> isdigit t) (split atom_str))) elems)"
    by simp
next
  assume "list_all isdigit (split atom_str)"
  with assms show "parse_atom_selection atom_str elems =
              set_true (replicate (length elems) False)
                (map (\<lambda>x. int_of_str x - 1) (split atom_str))"
    by (simp add: parse_atom_selection_def Let_def)
qed

theorem mixed_tokens_are_labels_witness:
  "lower ''1 Fe'' \<noteq> ''all'' \<and> \<not> list_all isdigit (split ''1 Fe'') \<and>
   \<not> isdigit ''Fe'' \<and> \<not> isdigit ''Ni'' \<and>
   parse_atom_selection ''1 Fe'' [''Fe'', ''Ni''] =
     Inr (map (\<lambda>e. e \<in> set (filter (\<lambda>t. \<not> isdigit t) (split ''1 Fe''))) [''Fe'', ''Ni'']) \<and>
   lower ''1 2'' \<noteq> ''all'' \<and> list_all isdigit (split ''1 2'') \<and>
   parse_atom_selection ''1 2'' [''Fe'', ''Ni''] =
     set_true (replicate (length [''Fe'', ''Ni'']) False) (map (\<lambda>x. int_of_str x - 1) (split ''1 2''))"
proof -
  have a: "lower ''1 Fe'' \<noteq> ''all''" by code_simp
  have b: "\<not> list_all isdigit (split ''1 Fe'')" by code_simp
  have c: "\<forall>e\<in>set [''Fe'', ''Ni'']. \<not> isdigit e" by code_simp
  have d: "lower ''1 2'' \<noteq> ''all''" by code_simp
  have e: "list_all isdigit (split ''1 2'')" by code_simp
  from mixed_tokens_are_labels[OF a, of "[''Fe'', ''Ni'']"] b c
  have 1: "parse_atom_selection ''1 Fe'' [''Fe'', ''Ni''] =
     Inr (map (\<lambda>e. e \<in> set (filter (\<lambda>t. \<not> isdigit t) (split ''1 Fe''))) [''Fe'', ''Ni''])"
    by blast
  from mixed_tokens_are_labels[OF d, of "[''Fe'', ''Ni'']"] e
  have 2: "parse_atom_selection ''1 2'' [''Fe'', ''Ni''] =
     set_true (replicate (length [''Fe'', ''Ni'']) False) (map (\<lambda>x. int_of_str x - 1) (split ''1 2''))"
    by blast
  have c': "\<not> isdigit ''Fe''" "\<not> isdigit ''Ni''" by code_simp+
  from a b c' d e 1 2 show ?thesis by blast
qed

lemma set_true_out_of_range:
  "\<exists>j\<in>set js. j < - int (length m) \<or> int (length m) \<le> j \<Longrightarrow> set_true m js = Inl IndexError"
proof (induction js arbitrary: m)
  case Nil
  then show ?case by simp
next
  case (Cons j js)
  show ?case
  proof (cases "j < - int (length m) \<or> int (length m) \<le> j")
    case True
    then show ?thesis by (simp add: Let_def)
  next
    case False
    let ?m' = "m[nat (if j < 0 then j + int (length m) else j) := True]"
    from False Cons.prems have "\<exists>j\<in>set js. j < - int (length ?m') \<or> int (length ?m') \<le> j"
      by auto
    from Cons.IH[OF this] False show ?thesis by (simp add: Let_def)
  qed
qed

lemma set_true_in_range:
  "\<forall>j\<in>set js. 0 \<le> j \<and> j < int (length m) \<Longrightarrow>
   set_true m js = Inr (map (\<lambda>i. m ! i \<or> int i \<in> set js) [0..<length m])"
proof (induction js arbitrary: m)
  case Nil
  then show ?case by (simp add: map_nth)
next
  case (Cons j js)
  let ?m' = "m[nat j := True]"
  from Cons.prems have j: "0 \<le> j" "j < int (length m)" and
    js: "\<forall>j\<in>set js. 0 \<le> j \<and> j < int (length ?m')" by simp_all
  have "set_true ?m' js = Inr (map (\<lambda>i. ?m' ! i \<or> int i \<in> set js) [0..<length ?m'])"
    using Cons.IH[OF js] .
  moreover have "map (\<lambda>i. ?m' ! i \<or> int i \<in> set js) [0..<length ?m'] =
                 map (\<lambda>i. m ! i \<or> int i \<in> set (j # js)) [0..<length m]"
    using j by (auto simp: nth_list_update)
  ultimately show ?case using j by (simp add: Let_def)
qed

lemma parse_indices_in_range:
  assumes "lower atom_str \<noteq> ''all''" and "list_all isdigit (split atom_str)"
    and "\<forall>x\<in>set (split atom_str). 1 \<le> int_of_str x \<and> int_of_str x \<le> int (length elems)"
  shows "parse_atom_selection atom_str elems =
           Inr (map (\<lambda>i. int i + 1 \<in> int_of_str ` set (split atom_str)) [0..<length elems])"
proof -
  let ?idx = "map (\<lambda>x. int_of_str x - 1) (split atom_str)"
  have "\<forall>j\<in>set ?idx. 0 \<le> j \<and> j < int (length (replicate (length elems) False))"
    using assms(3) by auto
  from set_true_in_range[OF this]
  have "set_true (replicate (length elems) False) ?idx =
          Inr (map (\<lambda>i. int i \<in> set ?idx) [0..<length elems])"
    by simp
  moreover have "map (\<lambda>i. int i \<in> set ?idx) [0..<length elems] =
                 map (\<lambda>i. int i + 1 \<in> int_of_str ` set (split atom_str)) [0..<length elems]"
  proof (intro map_cong refl)
    fix i
    have "int i \<in> set ?idx \<longleftrightarrow> (\<exists>x\<in>set (split atom_str). int i = int_of_str x - 1)"
      by (auto simp: image_iff)
    also have "\<dots> \<longleftrightarrow> (\<exists>x\<in>set (split atom_str). int i + 1 = int_of_str x)"
      by (intro bex_cong refl) linarith
    also have "\<dots> \<longleftrightarrow> int i + 1 \<in> int_of_str ` set (split atom_str)"
      by (auto simp: image_iff)
    finally show "(int i \<in> set ?idx) = (int i + 1 \<in> int_of_str ` set (split atom_str))" .
  qed
  ultimately show ?thesis using assms(1,2) by (simp add: parse_atom_selection_def Let_def)
qed

lemma parse_index_too_large:
  assumes "lower atom_str \<noteq> ''all''" and "list_all isdigit (split atom_str)"
    and "\<exists>x\<in>set (split atom_str). int (length elems) < int_of_str x"
  shows "parse_atom_selection atom_str elems = Inl IndexError"
proof -
  let ?idx = "map (\<lambda>x. int_of_str x - 1) (split atom_str)"
  have "\<exists>j\<in>set ?idx. j < - int (length (replicate (length elems) False)) \<or>
           int (length (replicate (length elems) False)) \<le> j"
    using assms(3) by auto
  from set_true_out_of_range[OF this] assms(1,2) show ?thesis
    by (simp add: parse_atom_selection_def Let_def)
qed

end
